theory Spec2Isabelle
  imports Main "HOL-Library.Word" "HOL-Library.AList"
begin

unbundle bit_operations_syntax

section \<open>JavaScript strings\<close>

text \<open>
  A JavaScript string is a sequence of 16-bit code units. \<open>js\<close> writes an ASCII
  literal of the source as such a sequence.
\<close>

type_synonym jsstring = "16 word list"

definition js :: "string \<Rightarrow> jsstring" where
  "js s = map (\<lambda>c. of_nat (of_char c)) s"

text \<open>The test \<^verbatim>\<open>/[^\u0000-\u007F]/\<close> looks for a code unit that is not \<open>ascii\<close>.\<close>

definition ascii :: "16 word \<Rightarrow> bool" where
  "ascii c = (c \<le> 0x7F)"

section \<open>The decoder of the utf8 package\<close>

text \<open>
  Modelled from the spec: \<^verbatim>\<open>utf8.decode\<close> is imported from the npm package utf8
  (App.tsx line 22), whose code is not among the repository's files. The spec (4.1)
  describes it as reading each character as a byte value and decoding the byte stream as
  UTF-8, signalling an error on a malformed sequence. The functions of the application
  take the decoder as the parameter \<open>dec\<close> (\<open>None\<close>: it throws); \<open>utf8_decode\<close> below
  follows the package (utf8.js 3.0.0: ucs2decode, readContinuationByte, decodeSymbol,
  utf8decode, ucs2encode) and is what the concrete evaluations use. The package computes
  with 32-bit integers, hence \<open>32 word\<close>.
\<close>

type_synonym decoder = "jsstring \<Rightarrow> jsstring option"

fun ucs2decode :: "jsstring \<Rightarrow> 32 word list" where
  "ucs2decode [] = []"
| "ucs2decode [v] = [ucast v]"
| "ucs2decode (v # extra # rest) =
     (if 0xD800 \<le> v \<and> v \<le> 0xDBFF then
        (if extra AND 0xFC00 = 0xDC00
         then (push_bit 10 (ucast v AND 0x3FF) + (ucast extra AND 0x3FF) + 0x10000)
                # ucs2decode rest
         else ucast v # ucs2decode (extra # rest))
      else ucast v # ucs2decode (extra # rest))"

text \<open>
  \<open>readContinuationByte\<close> and \<open>decodeSymbol\<close> read from the front of the byte array and
  return what is left of it; \<open>None\<close> is a thrown Error. \<open>decodeSymbol\<close> is called on a
  non-empty rest only (the loop below stops at the end of the array, where the package's
  decodeSymbol returns false).
\<close>

definition readContinuationByte :: "32 word list \<Rightarrow> (32 word \<times> 32 word list) option" where
  "readContinuationByte byteArray =
     (case byteArray of
        [] \<Rightarrow> None
      | b # rest \<Rightarrow>
          (let continuationByte = b AND 0xFF
           in if continuationByte AND 0xC0 = 0x80
              then Some (continuationByte AND 0x3F, rest)
              else None))"

definition checkScalarValue :: "32 word \<Rightarrow> bool" where
  "checkScalarValue codePoint = (\<not> (0xD800 \<le> codePoint \<and> codePoint \<le> 0xDFFF))"

definition decodeSymbol :: "32 word \<Rightarrow> 32 word list \<Rightarrow> (32 word \<times> 32 word list) option" where
  "decodeSymbol b rest =
     (let byte1 = b AND 0xFF in
      if byte1 AND 0x80 = 0 then Some (byte1, rest)
      else if byte1 AND 0xE0 = 0xC0 then
        (case readContinuationByte rest of
           None \<Rightarrow> None
         | Some (byte2, r2) \<Rightarrow>
             (let codePoint = push_bit 6 (byte1 AND 0x1F) OR byte2
              in if 0x80 \<le> codePoint then Some (codePoint, r2) else None))
      else if byte1 AND 0xF0 = 0xE0 then
        (case readContinuationByte rest of
           None \<Rightarrow> None
         | Some (byte2, r2) \<Rightarrow>
             (case readContinuationByte r2 of
                None \<Rightarrow> None
              | Some (byte3, r3) \<Rightarrow>
                  (let codePoint = push_bit 12 (byte1 AND 0x0F) OR push_bit 6 byte2 OR byte3
                   in if 0x0800 \<le> codePoint \<and> checkScalarValue codePoint
                      then Some (codePoint, r3) else None)))
      else if byte1 AND 0xF8 = 0xF0 then
        (case readContinuationByte rest of
           None \<Rightarrow> None
         | Some (byte2, r2) \<Rightarrow>
             (case readContinuationByte r2 of
                None \<Rightarrow> None
              | Some (byte3, r3) \<Rightarrow>
                  (case readContinuationByte r3 of
                     None \<Rightarrow> None
                   | Some (byte4, r4) \<Rightarrow>
                       (let codePoint = push_bit 0x12 (byte1 AND 0x07) OR push_bit 0x0C byte2
                                          OR push_bit 0x06 byte3 OR byte4
                        in if 0x010000 \<le> codePoint \<and> codePoint \<le> 0x10FFFF
                           then Some (codePoint, r4) else None))))
      else None)"

lemma readContinuationByte_shorter:
  "readContinuationByte bs = Some (x, r) \<Longrightarrow> length r < length bs"
  by (auto simp: readContinuationByte_def Let_def split: list.splits if_splits)

lemma decodeSymbol_shorter:
  "decodeSymbol b rest = Some (cp, r) \<Longrightarrow> length r \<le> length rest"
  by (auto simp: decodeSymbol_def Let_def split: if_splits option.splits
           dest!: readContinuationByte_shorter)

function decodeSymbols :: "32 word list \<Rightarrow> 32 word list option" where
  "decodeSymbols [] = Some []"
| "decodeSymbols (b # rest) =
     (case decodeSymbol b rest of
        None \<Rightarrow> None
      | Some (codePoint, r) \<Rightarrow> map_option ((#) codePoint) (decodeSymbols r))"
  by pat_completeness auto
termination
  by (relation "measure length") (auto dest: decodeSymbol_shorter)

fun ucs2encode :: "32 word list \<Rightarrow> jsstring" where
  "ucs2encode [] = []"
| "ucs2encode (v # rest) =
     (if 0xFFFF < v
      then ucast (drop_bit 10 (v - 0x10000) AND 0x3FF OR 0xD800)
             # ucast (0xDC00 OR (v - 0x10000) AND 0x3FF) # ucs2encode rest
      else ucast v # ucs2encode rest)"

definition utf8_decode :: decoder where
  "utf8_decode byteString = map_option ucs2encode (decodeSymbols (ucs2decode byteString))"

section \<open>decodeUnicode (App.tsx lines 44 to 57)\<close>

text \<open>
  The regular expression \<^verbatim>\<open>/\\u([0-9a-fA-F]{4})/g\<close> matches a backslash, the letter u
  and four hexadecimal digits; \<open>replace\<close> rewrites the matches from left to right, each
  one by \<^verbatim>\<open>String.fromCharCode(parseInt(p1, 16))\<close>, and continues after the match.
\<close>

definition hex_digit :: "16 word \<Rightarrow> bool" where
  "hex_digit c = ((0x30 \<le> c \<and> c \<le> 0x39) \<or> (0x61 \<le> c \<and> c \<le> 0x66) \<or> (0x41 \<le> c \<and> c \<le> 0x46))"

definition digit_value :: "16 word \<Rightarrow> int" where
  "digit_value c =
     (if 0x30 \<le> c \<and> c \<le> 0x39 then uint c - 0x30
      else if 0x61 \<le> c \<and> c \<le> 0x66 then uint c - 0x61 + 10
      else uint c - 0x41 + 10)"

definition parseInt16 :: "jsstring \<Rightarrow> int" where
  "parseInt16 p1 = foldl (\<lambda>n c. 16 * n + digit_value c) 0 p1"

definition fromCharCode :: "int \<Rightarrow> 16 word" where
  "fromCharCode n = of_int n"

definition escape_at :: "jsstring \<Rightarrow> bool" where
  "escape_at s =
     (case s of
        a # b # c # d # e # f # _ \<Rightarrow>
          a = 0x5C \<and> b = 0x75 \<and> hex_digit c \<and> hex_digit d \<and> hex_digit e \<and> hex_digit f
      | _ \<Rightarrow> False)"

fun replace_escapes :: "jsstring \<Rightarrow> jsstring" where
  "replace_escapes [] = []"
| "replace_escapes (c # cs) =
     (if escape_at (c # cs)
      then fromCharCode (parseInt16 (take 4 (drop 1 cs))) # replace_escapes (drop 5 cs)
      else c # replace_escapes cs)"

definition decodeUnicode :: "decoder \<Rightarrow> jsstring \<Rightarrow> jsstring option" where
  "decodeUnicode dec unicodeString =
     (if unicodeString = [] then Some []
      else dec (replace_escapes unicodeString))"

section \<open>The JavaScript operations the application calls\<close>

subsection \<open>String methods\<close>

text \<open>\<open>trim\<close> removes WhiteSpace and LineTerminator code units from both ends.\<close>

definition white_space :: "16 word \<Rightarrow> bool" where
  "white_space c =
     (c \<in> set [0x09, 0x0A, 0x0B, 0x0C, 0x0D, 0x20, 0xA0, 0x1680, 0x2028, 0x2029,
               0x202F, 0x205F, 0x3000, 0xFEFF]
      \<or> (0x2000 \<le> c \<and> c \<le> 0x200A))"

definition trim :: "jsstring \<Rightarrow> jsstring" where
  "trim s = rev (dropWhile white_space (rev (dropWhile white_space s)))"

text \<open>
  \<open>toLowerCase\<close> is modelled on the ASCII letters. The application uses it only
  inside a conjunction whose last conjunct rejects every string with a code unit outside
  ASCII, so the Unicode case mapping of other code units cannot change a result.
\<close>

definition toLowerCase :: "jsstring \<Rightarrow> jsstring" where
  "toLowerCase s = map (\<lambda>c. if 0x41 \<le> c \<and> c \<le> 0x5A then c + 0x20 else c) s"

fun str_includes :: "jsstring \<Rightarrow> jsstring \<Rightarrow> bool" where
  "str_includes [] p = (p = [])"
| "str_includes (c # cs) p = (take (length p) (c # cs) = p \<or> str_includes cs p)"

subsection \<open>Plain objects used as dictionaries\<close>

text \<open>
  An object created by \<^verbatim>\<open>{}\<close> is the list of its own properties in the order of their
  creation (\<open>AList.update\<close> keeps the place of a key that exists and appends a new one),
  together with what it inherits from Object.prototype: reading a key that is not an
  own property but is the name of a member of Object.prototype gives that member, which
  is truthy and is neither a number nor an array.
\<close>

type_synonym 'v jsobject = "(jsstring \<times> 'v) list"

definition object_prototype_names :: "jsstring list" where
  "object_prototype_names = map js
     [''constructor'', ''hasOwnProperty'', ''isPrototypeOf'', ''propertyIsEnumerable'',
      ''toLocaleString'', ''toString'', ''valueOf'', ''__proto__'', ''__defineGetter__'',
      ''__defineSetter__'', ''__lookupGetter__'', ''__lookupSetter__'']"

definition inherited :: "jsstring \<Rightarrow> bool" where
  "inherited k = (k \<in> set object_prototype_names)"

text \<open>
  Object.keys, Object.values and Object.entries list the own properties with the keys
  that are array indices first, in ascending numeric order, and then the other keys in
  the order of their creation. An array index is the canonical decimal string of an
  integer from 0 to \<open>2^32 - 2\<close>.
\<close>

definition decimal_digit :: "16 word \<Rightarrow> bool" where
  "decimal_digit c = (0x30 \<le> c \<and> c \<le> 0x39)"

definition decimal_value :: "jsstring \<Rightarrow> int" where
  "decimal_value k = foldl (\<lambda>n c. 10 * n + (uint c - 0x30)) 0 k"

definition array_index :: "jsstring \<Rightarrow> bool" where
  "array_index k =
     (k \<noteq> [] \<and> list_all decimal_digit k \<and> (length k = 1 \<or> hd k \<noteq> 0x30)
      \<and> decimal_value k < 2 ^ 32 - 1)"

definition own_properties :: "'v jsobject \<Rightarrow> (jsstring \<times> 'v) list" where
  "own_properties obj =
     sort_key (\<lambda>p. decimal_value (fst p)) (filter (\<lambda>p. array_index (fst p)) obj)
       @ filter (\<lambda>p. \<not> array_index (fst p)) obj"



definition Object_entries :: "'v jsobject \<Rightarrow> (jsstring \<times> 'v) list" where
  "Object_entries obj = own_properties obj"

subsection \<open>Array methods\<close>

text \<open>
  \<open>sort\<close> is stable and reads a comparator result that is NaN (\<open>None\<close>) as 0. Where the
  comparator is consistent every engine returns the list below; where it is not (NaN
  among the results) the order is left to the engine, and the model is an insertion sort.
\<close>

fun insort_cmp :: "('a \<Rightarrow> 'a \<Rightarrow> int option) \<Rightarrow> 'a \<Rightarrow> 'a list \<Rightarrow> 'a list" where
  "insort_cmp cmp x [] = [x]"
| "insort_cmp cmp x (y # ys) =
     (if (case cmp x y of None \<Rightarrow> 0 | Some v \<Rightarrow> v) \<le> 0 then x # y # ys
      else y # insort_cmp cmp x ys)"

definition array_sort :: "('a \<Rightarrow> 'a \<Rightarrow> int option) \<Rightarrow> 'a list \<Rightarrow> 'a list" where
  "array_sort cmp xs = foldr (insort_cmp cmp) xs []"

text \<open>\<open>slice(start, end)\<close>; \<open>None\<close> is an \<open>end\<close> that is not given.\<close>

definition slice :: "'a list \<Rightarrow> int \<Rightarrow> int option \<Rightarrow> 'a list" where
  "slice xs start fin =
     (let len = int (length xs);
          k = (if start < 0 then max (len + start) 0 else min start len);
          final = (case fin of
                     None \<Rightarrow> len
                   | Some e \<Rightarrow> if e < 0 then max (len + e) 0 else min e len)
      in take (nat (final - k)) (drop (nat k) xs))"

text \<open>Subtraction of two numbers either of which may be \<^verbatim>\<open>undefined\<close> or not a number.\<close>

definition minus_number :: "int option \<Rightarrow> int option \<Rightarrow> int option" where
  "minus_number a b = (case (a, b) of (Some x, Some y) \<Rightarrow> Some (x - y) | _ \<Rightarrow> None)"

section \<open>The data model (App.tsx lines 34 to 42)\<close>

text \<open>
  A record of the uploaded file: \<open>sender_name\<close> and \<open>content\<close> may be absent, and
  \<open>raw_other\<close> stands for every further field of the JSON object.
\<close>

record 'x RawMessage =
  raw_sender_name :: "jsstring option"
  raw_content :: "jsstring option"
  raw_timestamp_ms :: "int option"
  raw_other :: 'x

record 'x Message =
  sender_name :: jsstring
  content :: jsstring
  timestamp_ms :: "int option"
  other :: 'x

type_synonym 'x UserMessages = "('x Message list) jsobject"

text \<open>The chart structure, without its colours: \<open>labels\<close> and \<open>datasets[0].data\<close>.\<close>

record 'v chart =
  labels :: "jsstring list"
  data :: "'v list"

section \<open>filterMessages and getTopMessages (App.tsx lines 64 to 114)\<close>

definition filterMessages :: "'x Message list \<Rightarrow> 'x Message list" where
  "filterMessages messages =
     filter
       (\<lambda>msg. content msg \<noteq> []
          \<and> \<not> str_includes (toLowerCase (content msg)) (js ''liked a message'')
          \<and> \<not> str_includes (toLowerCase (content msg)) (js ''attachment'')
          \<and> \<not> str_includes (toLowerCase (content msg)) (js ''like'')
          \<and> list_all ascii (content msg))
       (map (\<lambda>msg. msg\<lparr>content := trim (content msg)\<rparr>) messages)"

text \<open>
  A value held by \<open>messageCounts\<close>: a number, or the string that
  \<^verbatim>\<open>(messageCounts[k] || 0) + 1\<close> is when \<^verbatim>\<open>messageCounts[k]\<close> is an inherited member of
  Object.prototype or such a string already; it is not a number.
\<close>

datatype jsvalue = Number nat | NonNumeric

definition to_number :: "jsvalue \<Rightarrow> int option" where
  "to_number v = (case v of Number n \<Rightarrow> Some (int n) | NonNumeric \<Rightarrow> None)"

text \<open>
  The body of the \<open>forEach\<close> of line 86. Assigning a string to \<^verbatim>\<open>__proto__\<close> is ignored
  by its setter: no own property is created.
\<close>

definition count_message :: "jsvalue jsobject \<Rightarrow> jsstring \<Rightarrow> jsvalue jsobject" where
  "count_message messageCounts k =
     (case map_of messageCounts k of
        Some (Number n) \<Rightarrow> AList.update k (Number (n + 1)) messageCounts
      | Some NonNumeric \<Rightarrow> AList.update k NonNumeric messageCounts
      | None \<Rightarrow>
          if k = js ''__proto__'' then messageCounts
          else if inherited k then AList.update k NonNumeric messageCounts
          else AList.update k (Number 1) messageCounts)"

definition messageCounts :: "'x Message list \<Rightarrow> jsvalue jsobject" where
  "messageCounts messages =
     foldl (\<lambda>mc msg. count_message mc (content msg)) [] (filterMessages messages)"

definition sortedMessages :: "'x Message list \<Rightarrow> (jsstring \<times> jsvalue) list" where
  "sortedMessages messages =
     slice
       (array_sort (\<lambda>a b. minus_number (to_number (snd b)) (to_number (snd a)))
          (Object_entries (messageCounts messages)))
       0 (Some 7)"

definition getTopMessages :: "'x Message list \<Rightarrow> jsvalue chart" where
  "getTopMessages messages =
     \<lparr>labels = map fst (sortedMessages messages), data = map snd (sortedMessages messages)\<rparr>"

section \<open>The chronological selection (App.tsx lines 116 to 130)\<close>

text \<open>\<^verbatim>\<open>msg.timestamp_ms\<close> as a condition: a number is truthy unless it is 0.\<close>

definition truthy_number :: "int option \<Rightarrow> bool" where
  "truthy_number t = (case t of None \<Rightarrow> False | Some n \<Rightarrow> n \<noteq> 0)"

definition getSortedMessagesAscending :: "'x Message list \<Rightarrow> 'x Message list" where
  "getSortedMessagesAscending messages =
     array_sort (\<lambda>a b. minus_number (timestamp_ms a) (timestamp_ms b))
       (filter (\<lambda>msg. truthy_number (timestamp_ms msg)) messages)"

definition getLatestMessages :: "'x Message list \<Rightarrow> int \<Rightarrow> 'x Message list" where
  "getLatestMessages messages count = slice (getSortedMessagesAscending messages) (- count) None"

definition getEarliestMessages :: "'x Message list \<Rightarrow> int \<Rightarrow> 'x Message list" where
  "getEarliestMessages messages count = slice (getSortedMessagesAscending messages) 0 (Some count)"

section \<open>The normalization loop of handleFileUpload (App.tsx lines 181 to 205)\<close>

text \<open>
  The body of \<^verbatim>\<open>messages.forEach\<close>, from the object built so far to the object after the
  message. Every statement after the two defaults stands inside the \<^verbatim>\<open>try\<close>, whose
  \<^verbatim>\<open>catch\<close> logs the error and goes on to the next message: a decoder that throws leaves
  the object as it was, and so does \<^verbatim>\<open>push\<close> when \<^verbatim>\<open>userMessages[decodedSenderName]\<close>
  is an inherited member of Object.prototype (truthy, so no array is stored, and without
  a \<^verbatim>\<open>push\<close>: a TypeError).
\<close>

definition content_or_empty :: "'x RawMessage \<Rightarrow> jsstring" where
  "content_or_empty msg = (case raw_content msg of None \<Rightarrow> [] | Some c \<Rightarrow> c)"

definition senderName_or_empty :: "'x RawMessage \<Rightarrow> jsstring" where
  "senderName_or_empty msg = (case raw_sender_name msg of None \<Rightarrow> [] | Some s \<Rightarrow> s)"

definition forEach_message :: "decoder \<Rightarrow> 'x UserMessages \<Rightarrow> 'x RawMessage \<Rightarrow> 'x UserMessages" where
  "forEach_message dec userMessages msg =
     (case dec (content_or_empty msg) of
        None \<Rightarrow> userMessages
      | Some decodedContent \<Rightarrow>
          (case dec (senderName_or_empty msg) of
             None \<Rightarrow> userMessages
           | Some decodedSenderName \<Rightarrow>
               (let new = \<lparr>sender_name = decodedSenderName, content = decodedContent,
                           timestamp_ms = raw_timestamp_ms msg, other = raw_other msg\<rparr>
                in case map_of userMessages decodedSenderName of
                     Some msgs \<Rightarrow> AList.update decodedSenderName (msgs @ [new]) userMessages
                   | None \<Rightarrow>
                       if inherited decodedSenderName then userMessages
                       else AList.update decodedSenderName [new] userMessages)))"

definition normalize_messages :: "decoder \<Rightarrow> 'x RawMessage list \<Rightarrow> 'x UserMessages" where
  "normalize_messages dec messages = foldl (forEach_message dec) [] messages"

definition total_messages :: "'x UserMessages \<Rightarrow> nat" where
  "total_messages userMessages = sum_list (map (\<lambda>p. length (snd p)) userMessages)"

section \<open>getChartData and allMessages (App.tsx lines 217 to 251 and 313)\<close>



section \<open>Notions used in the statements and their proofs\<close>

text \<open>A string has an escape when one of its suffixes starts with a match of the pattern.\<close>

fun has_escape :: "jsstring \<Rightarrow> bool" where
  "has_escape [] = False"
| "has_escape (c # cs) = (escape_at (c # cs) \<or> has_escape cs)"

text \<open>The position of the first occurrence of \<open>x\<close> in \<open>xs\<close> (the length when there is none).\<close>

definition first_pos :: "'a \<Rightarrow> 'a list \<Rightarrow> nat" where
  "first_pos x xs = length (takeWhile (\<lambda>y. y \<noteq> x) xs)"

text \<open>
  The message that the loop of \<open>handleFileUpload\<close> builds from a record, when the decoder
  returns for both fields.
\<close>

definition canonical :: "decoder \<Rightarrow> 'x RawMessage \<Rightarrow> 'x Message option" where
  "canonical dec msg =
     (case dec (content_or_empty msg) of
        None \<Rightarrow> None
      | Some decodedContent \<Rightarrow>
          (case dec (senderName_or_empty msg) of
             None \<Rightarrow> None
           | Some decodedSenderName \<Rightarrow>
               Some \<lparr>sender_name = decodedSenderName, content = decodedContent,
                      timestamp_ms = raw_timestamp_ms msg, other = raw_other msg\<rparr>))"

text \<open>No own key of the object is the name of a member of Object.prototype.\<close>

definition no_inherited_key :: "'v jsobject \<Rightarrow> bool" where
  "no_inherited_key obj = list_all (\<lambda>p. \<not> inherited (fst p)) obj"

text \<open>
  The order in which Object.entries lists two keys of the counting object, \<open>ks\<close> being the
  counted strings in the order of the input: array indices first, by ascending value, then
  the other keys by their first occurrence.
\<close>

definition enumerated_before :: "jsstring list \<Rightarrow> jsstring \<Rightarrow> jsstring \<Rightarrow> bool" where
  "enumerated_before ks a b =
     (if array_index a then (array_index b \<longrightarrow> decimal_value a \<le> decimal_value b)
      else (\<not> array_index b \<and> first_pos a ks < first_pos b ks))"

text \<open>The contents that \<open>getTopMessages\<close> counts, in the order of the input.\<close>

definition counted_contents :: "'x Message list \<Rightarrow> jsstring list" where
  "counted_contents messages = map content (filterMessages messages)"

text \<open>Every value of the counting object is a number; the number held by a value.\<close>

definition all_numbers :: "jsvalue jsobject \<Rightarrow> bool" where
  "all_numbers obj = list_all (\<lambda>p. \<exists>n. snd p = Number n) obj"

definition number_of :: "jsvalue \<Rightarrow> nat" where
  "number_of v = (case v of Number n \<Rightarrow> n | NonNumeric \<Rightarrow> 0)"


text \<open>Records and messages of the examples: both fields present, no further field.\<close>

definition raw_record :: "jsstring \<Rightarrow> jsstring \<Rightarrow> int option \<Rightarrow> unit RawMessage" where
  "raw_record s c t =
     \<lparr>raw_sender_name = Some s, raw_content = Some c, raw_timestamp_ms = t, raw_other = ()\<rparr>"

definition message :: "jsstring \<Rightarrow> jsstring \<Rightarrow> int option \<Rightarrow> unit Message" where
  "message s c t = \<lparr>sender_name = s, content = c, timestamp_ms = t, other = ()\<rparr>"

section \<open>Lemmas on sort and slice\<close>

lemma set_insort_cmp: "set (insort_cmp cmp x ys) = insert x (set ys)"
  by (induction ys) auto

lemma set_array_sort: "set (array_sort cmp xs) = set xs"
  by (induction xs) (auto simp: array_sort_def set_insort_cmp)

lemma length_insort_cmp: "length (insort_cmp cmp x ys) = Suc (length ys)"
  by (induction ys) auto

lemma length_array_sort: "length (array_sort cmp xs) = length xs"
  by (induction xs) (auto simp: array_sort_def length_insort_cmp)

text \<open>With a comparator that subtracts integer keys, \<open>array_sort\<close> is the stable sort by key.\<close>

lemma insort_cmp_key:
  fixes f :: "'a \<Rightarrow> int"
  shows "\<forall>y\<in>set ys. cmp x y = Some (f x - f y) \<Longrightarrow> insort_cmp cmp x ys = insort_key f x ys"
  by (induction ys) auto

lemma array_sort_key:
  fixes f :: "'a \<Rightarrow> int"
  assumes "\<forall>x\<in>set xs. \<forall>y\<in>set xs. cmp x y = Some (f x - f y)"
  shows "array_sort cmp xs = sort_key f xs"
  using assms
proof (induction xs)
  case Nil
  show ?case by (simp add: array_sort_def)
next
  case (Cons x xs)
  have tl: "array_sort cmp xs = sort_key f xs"
    using Cons by simp
  have "insort_cmp cmp x (sort_key f xs) = insort_key f x (sort_key f xs)"
    using Cons.prems by (intro insort_cmp_key) simp
  with tl show ?case
    by (simp add: array_sort_def)
qed

lemma slice_from_start: "0 \<le> n \<Longrightarrow> slice xs 0 (Some n) = take (nat n) xs"
  by (auto simp: slice_def Let_def min_def)



text \<open>
  A stable sort of a list that is ordered by \<open>Q\<close> is ordered by key first and by \<open>Q\<close>
  among equal keys.
\<close>

lemma insort_key_lex:
  fixes f :: "'a \<Rightarrow> int"
  assumes "sorted_wrt (\<lambda>a b. f a < f b \<or> (f a = f b \<and> Q a b)) ys" and "\<forall>y\<in>set ys. Q x y"
  shows "sorted_wrt (\<lambda>a b. f a < f b \<or> (f a = f b \<and> Q a b)) (insort_key f x ys)"
  using assms
proof (induction ys)
  case Nil
  show ?case by simp
next
  case (Cons y ys)
  show ?case
  proof (cases "f x \<le> f y")
    case True
    have "f x < f z \<or> (f x = f z \<and> Q x z)" if "z \<in> set (y # ys)" for z
    proof -
      have "f y \<le> f z"
        using that Cons.prems(1) by auto
      with True have "f x \<le> f z" by simp
      moreover have "Q x z"
        using that Cons.prems(2) by auto
      ultimately show ?thesis by auto
    qed
    with True Cons.prems(1) show ?thesis
      by simp
  next
    case False
    have "sorted_wrt (\<lambda>a b. f a < f b \<or> (f a = f b \<and> Q a b)) (insort_key f x ys)"
      using Cons by simp
    with False Cons.prems(1) show ?thesis
      by (auto simp: set_insort_key)
  qed
qed

lemma sort_key_lex:
  fixes f :: "'a \<Rightarrow> int"
  assumes "sorted_wrt Q xs"
  shows "sorted_wrt (\<lambda>a b. f a < f b \<or> (f a = f b \<and> Q a b)) (sort_key f xs)"
  using assms
proof (induction xs)
  case Nil
  show ?case by simp
next
  case (Cons x xs)
  have "sorted_wrt (\<lambda>a b. f a < f b \<or> (f a = f b \<and> Q a b)) (sort_key f xs)"
    using Cons by simp
  moreover have "\<forall>y\<in>set (sort_key f xs). Q x y"
    using Cons.prems by simp
  ultimately show ?case
    by (simp add: insort_key_lex)
qed

section \<open>The chronological selection\<close>




text \<open>
  C5. The claim: every message whose \<open>timestamp_ms\<close> is present, 0 included, is a candidate
  of \<open>earliest\<close> and \<open>latest\<close>. The filter of line 118 tests the truthiness of the field,
  under the comment "Filter out messages without a timestamp": a message whose
  \<open>timestamp_ms\<close> is 0 has a timestamp and is filtered out all the same.
\<close>

theorem timestamp_zero_is_dropped:
  "getSortedMessagesAscending
     [message (js ''A'') (js ''hi'') (Some 0)] = []
   \<and> getEarliestMessages
     [message (js ''A'') (js ''hi'') (Some 0)] 1 = []
   \<and> getLatestMessages
     [message (js ''A'') (js ''hi'') (Some 0)] 1 = []"
  by (simp add: getLatestMessages_def getEarliestMessages_def getSortedMessagesAscending_def
        array_sort_def truthy_number_def slice_def message_def)

section \<open>Lemmas on the decoder and on decodeUnicode\<close>

text \<open>On ASCII code units the decoder of the package is the identity.\<close>

lemma ascii_uint: "ascii c \<Longrightarrow> uint c < 128"
  by (simp add: ascii_def word_le_def)

lemma uint_ucast_16_32: "uint (ucast (c :: 16 word) :: 32 word) = uint c"
  by (simp add: unsigned_ucast_eq take_bit_int_eq_self_iff)
     (use uint_lt2p [of c] in simp)

lemma ascii_ucast_low: "ascii c \<Longrightarrow> (ucast c :: 32 word) AND 0xFF = ucast c"
  using mask_eq_iff [of "ucast c :: 32 word" 8] ascii_uint [of c]
  by (simp add: uint_ucast_16_32 mask_eq_exp_minus_1)

lemma ascii_ucast_high: "ascii c \<Longrightarrow> (ucast c :: 32 word) AND 0x80 = 0"
proof -
  assume a: "ascii c"
  have low: "(ucast c :: 32 word) AND 0x7F = ucast c"
    using mask_eq_iff [of "ucast c :: 32 word" 7] ascii_uint [OF a]
    by (simp add: uint_ucast_16_32 mask_eq_exp_minus_1)
  have "(ucast c :: 32 word) AND 0x80 = ((ucast c :: 32 word) AND 0x7F) AND 0x80"
    by (simp add: low)
  also have "\<dots> = (ucast c :: 32 word) AND (0x7F AND 0x80)"
    by (simp only: and.assoc)
  also have "\<dots> = 0"
    by simp
  finally show ?thesis .
qed

lemma ascii_not_surrogate: "ascii c \<Longrightarrow> \<not> 0xD800 \<le> c"
  by (simp add: ascii_def word_le_def)

lemma ascii_ucast_small: "ascii c \<Longrightarrow> \<not> (0xFFFF < (ucast c :: 32 word))"
  using ascii_uint [of c] by (simp add: word_less_def uint_ucast_16_32)

lemma ucast_back: "(ucast (ucast (c :: 16 word) :: 32 word) :: 16 word) = c"
  by (simp add: ucast_up_ucast_id is_up)

lemma ucs2decode_ascii: "list_all ascii s \<Longrightarrow> ucs2decode s = map ucast s"
proof (induction s rule: ucs2decode.induct)
  case 1
  show ?case by simp
next
  case (2 v)
  show ?case by simp
next
  case (3 v extra rest)
  have v: "\<not> 0xD800 \<le> v"
    using "3.prems" by (simp add: ascii_not_surrogate)
  with "3.IH"(3) "3.prems" have "ucs2decode (extra # rest) = map ucast (extra # rest)"
    by simp
  with v show ?case
    by simp
qed

lemma decodeSymbol_ascii: "ascii c \<Longrightarrow> decodeSymbol (ucast c) rest = Some (ucast c, rest)"
  by (simp add: decodeSymbol_def ascii_ucast_low ascii_ucast_high)

lemma decodeSymbols_ascii: "list_all ascii s \<Longrightarrow> decodeSymbols (map ucast s) = Some (map ucast s)"
  by (induction s) (simp_all add: decodeSymbol_ascii)

lemma ucs2encode_ascii: "list_all ascii s \<Longrightarrow> ucs2encode (map ucast s) = s"
  by (induction s) (simp_all add: ascii_ucast_small ucast_back)

lemma utf8_decode_ascii: "list_all ascii s \<Longrightarrow> utf8_decode s = Some s"
  by (simp add: utf8_decode_def ucs2decode_ascii decodeSymbols_ascii ucs2encode_ascii)

lemma replace_escapes_without_escape: "\<not> has_escape s \<Longrightarrow> replace_escapes s = s"
  by (induction s) auto

lemma decodeUnicode_without_escape:
  "s \<noteq> [] \<Longrightarrow> \<not> has_escape s \<Longrightarrow> decodeUnicode dec s = dec s"
  by (simp add: decodeUnicode_def replace_escapes_without_escape)

lemma utf8_decode_lone_E9: "utf8_decode [0xE9] = None"
  by (simp add: utf8_decode_def decodeSymbol_def readContinuationByte_def)

lemma raw_record_fields:
  "content_or_empty (raw_record s c t) = c"
  "senderName_or_empty (raw_record s c t) = s"
  "raw_timestamp_ms (raw_record s c t) = t"
  "raw_other (raw_record s c t) = ()"
  by (simp_all add: raw_record_def content_or_empty_def senderName_or_empty_def)

lemma ascii_js_samples:
  "list_all ascii (js ''A'')" "list_all ascii (js ''B'')" "list_all ascii (js ''hi'')"
  "list_all ascii (js ''yo'')" "list_all ascii (js ''ok'')" "list_all ascii (js ''toString'')"
  by (simp_all add: js_def ascii_def)

lemmas utf8_decode_samples = ascii_js_samples [THEN utf8_decode_ascii]

section \<open>Lemmas on the normalization loop\<close>

lemma forEach_message_canonical:
  "forEach_message dec um msg =
     (case canonical dec msg of
        None \<Rightarrow> um
      | Some new \<Rightarrow>
          (case map_of um (sender_name new) of
             Some msgs \<Rightarrow> AList.update (sender_name new) (msgs @ [new]) um
           | None \<Rightarrow> if inherited (sender_name new) then um
                     else AList.update (sender_name new) [new] um))"
  by (auto simp: forEach_message_def canonical_def Let_def split: option.splits)

lemma total_update_new:
  "map_of um k = None \<Longrightarrow> total_messages (AList.update k v um) = total_messages um + length v"
  by (induction um) (auto simp: total_messages_def)

lemma total_update_old:
  "map_of um k = Some old \<Longrightarrow>
     total_messages (AList.update k (old @ [m]) um) = Suc (total_messages um)"
  by (induction um) (auto simp: total_messages_def)

lemma map_of_update: "map_of (AList.update k v um) k' = (if k' = k then Some v else map_of um k')"
  by (simp add: update_conv')

lemma no_inherited_key_update:
  "no_inherited_key (AList.update k v al) = (\<not> inherited k \<and> no_inherited_key al)"
  by (induction al) (auto simp: no_inherited_key_def)

lemma no_inherited_key_lookup:
  "no_inherited_key obj \<Longrightarrow> map_of obj k = Some v \<Longrightarrow> \<not> inherited k"
  by (auto simp: no_inherited_key_def list_all_iff dest!: map_of_SomeD)

lemma no_inherited_key_step:
  assumes "no_inherited_key um"
  shows "no_inherited_key (forEach_message dec um msg)"
proof (cases "canonical dec msg")
  case None
  with assms show ?thesis by (simp add: forEach_message_canonical)
next
  case (Some new)
  show ?thesis
  proof (cases "map_of um (sender_name new)")
    case None
    with Some assms show ?thesis
      by (simp add: forEach_message_canonical no_inherited_key_update)
  next
    case (Some msgs)
    with assms have "\<not> inherited (sender_name new)"
      by (rule no_inherited_key_lookup)
    with Some \<open>canonical dec msg = Some new\<close> assms show ?thesis
      by (simp add: forEach_message_canonical no_inherited_key_update)
  qed
qed

lemma no_inherited_key_foldl:
  "no_inherited_key um \<Longrightarrow> no_inherited_key (foldl (forEach_message dec) um msgs)"
  by (induction msgs arbitrary: um) (simp_all add: no_inherited_key_step)

lemma total_step:
  assumes "no_inherited_key um"
  shows "total_messages (forEach_message dec um msg) =
           total_messages um
             + (if dec (content_or_empty msg) \<noteq> None
                   \<and> (\<exists>s. dec (senderName_or_empty msg) = Some s \<and> \<not> inherited s)
                then 1 else 0)"
proof (cases "canonical dec msg")
  case None
  then show ?thesis
    by (auto simp: forEach_message_canonical canonical_def split: option.splits)
next
  case (Some new)
  then have dec: "dec (content_or_empty msg) \<noteq> None"
      "dec (senderName_or_empty msg) = Some (sender_name new)"
    by (auto simp: canonical_def split: option.splits)
  show ?thesis
  proof (cases "map_of um (sender_name new)")
    case None
    with Some dec show ?thesis
      by (simp add: forEach_message_canonical total_update_new)
  next
    case (Some msgs)
    with assms have "\<not> inherited (sender_name new)"
      by (rule no_inherited_key_lookup)
    with Some \<open>canonical dec msg = Some new\<close> dec show ?thesis
      by (simp add: forEach_message_canonical total_update_old)
  qed
qed

lemma total_foldl:
  assumes "no_inherited_key um"
  shows "total_messages (foldl (forEach_message dec) um msgs) =
           total_messages um
             + length (filter (\<lambda>msg. dec (content_or_empty msg) \<noteq> None
                   \<and> (\<exists>s. dec (senderName_or_empty msg) = Some s \<and> \<not> inherited s)) msgs)"
  using assms
proof (induction msgs arbitrary: um)
  case Nil
  show ?case by simp
next
  case (Cons msg msgs)
  have "no_inherited_key (forEach_message dec um msg)"
    using Cons.prems by (rule no_inherited_key_step)
  from Cons.IH [OF this] show ?case
    by (simp add: total_step [OF Cons.prems])
qed

lemma lookup_foldl:
  assumes "no_inherited_key um"
  shows "map_of (foldl (forEach_message dec) um msgs) k =
           (let new = filter (\<lambda>m. sender_name m = k) (List.map_filter (canonical dec) msgs)
            in case map_of um k of
                 Some old \<Rightarrow> Some (old @ new)
               | None \<Rightarrow> if inherited k \<or> new = [] then None else Some new)"
  using assms
proof (induction msgs arbitrary: um)
  case Nil
  show ?case by (simp add: List.map_filter_simps split: option.splits)
next
  case (Cons msg msgs)
  have inv: "no_inherited_key (forEach_message dec um msg)"
    using Cons.prems by (rule no_inherited_key_step)
  note IH = Cons.IH [OF inv]
  show ?case
  proof (cases "canonical dec msg")
    case None
    with IH show ?thesis
      by (simp add: forEach_message_canonical List.map_filter_simps)
  next
    case (Some new)
    show ?thesis
    proof (cases "map_of um (sender_name new)")
      case None
      with Some IH show ?thesis
        by (auto simp: forEach_message_canonical List.map_filter_simps Let_def map_of_update
              split: option.splits)
    next
      case (Some old)
      with \<open>canonical dec msg = Some new\<close> IH show ?thesis
        by (auto simp: forEach_message_canonical List.map_filter_simps Let_def map_of_update
              split: option.splits)
    qed
  qed
qed

lemma lookup_normalize:
  "map_of (normalize_messages dec messages) k = Some msgs \<Longrightarrow>
     msgs = filter (\<lambda>m. sender_name m = k) (List.map_filter (canonical dec) messages)"
  using lookup_foldl [of "[]" dec messages k]
  by (simp add: normalize_messages_def no_inherited_key_def Let_def split: if_splits)

lemma canonical_fields:
  "map (\<lambda>m. (timestamp_ms m, other m))
       (filter (\<lambda>m. sender_name m = k) (List.map_filter (canonical dec) messages))
   = map (\<lambda>msg. (raw_timestamp_ms msg, raw_other msg))
       (filter (\<lambda>msg. dec (content_or_empty msg) \<noteq> None
                   \<and> dec (senderName_or_empty msg) = Some k) messages)"
  by (induction messages)
     (auto simp: List.map_filter_simps canonical_def split: option.splits)

lemma canonical_decoded:
  "map (\<lambda>m. (Some (sender_name m), Some (content m)))
       (filter (\<lambda>m. sender_name m = k) (List.map_filter (canonical dec) messages))
   = map (\<lambda>msg. (dec (senderName_or_empty msg), dec (content_or_empty msg)))
       (filter (\<lambda>msg. dec (content_or_empty msg) \<noteq> None
                   \<and> dec (senderName_or_empty msg) = Some k) messages)"
  by (induction messages)
     (auto simp: List.map_filter_simps canonical_def split: option.splits)

lemma sample_upload:
  "map_of (normalize_messages utf8_decode
      [raw_record (js ''A'') (js ''hi'') (Some 100),
       raw_record (js ''B'') (js ''yo'') (Some 200),
       raw_record (js ''A'') (js ''ok'') None]) (js ''A'')
   = Some [message (js ''A'') (js ''hi'') (Some 100), message (js ''A'') (js ''ok'') None]"
  by code_simp

section \<open>Text repair\<close>

text \<open>
  C9. For every string of 7-bit ASCII code units that has no match of the escape pattern,
  \<open>decodeUnicode\<close> (with the decoder of the utf8 package) returns the string itself.
\<close>

theorem decodeUnicode_clean_ascii:
  assumes "list_all ascii s" and "\<not> has_escape s"
  shows "decodeUnicode utf8_decode s = Some s"
  using assms
  by (cases "s = []")
     (simp_all add: decodeUnicode_def replace_escapes_without_escape utf8_decode_ascii)

theorem decodeUnicode_clean_ascii_witness:
  "list_all ascii (js ''hello u0041'') \<and> \<not> has_escape (js ''hello u0041'')
   \<and> decodeUnicode utf8_decode (js ''hello u0041'') = Some (js ''hello u0041'')"
proof -
  have a: "list_all ascii (js ''hello u0041'')"
    by (simp add: js_def ascii_def)
  have e: "\<not> has_escape (js ''hello u0041'')"
    by (simp add: js_def escape_at_def)
  from a e decodeUnicode_clean_ascii [OF a e] show ?thesis
    by simp
qed

section \<open>Normalization\<close>

text \<open>
  C1 (as amended). The claim: the loop never throws and the mapping holds as many messages
  as the input list. The loop is total (every error is caught inside the body). For an
  upload in which no sender name decodes to the name of a member of Object.prototype, the
  mapping holds one message for each record whose content and sender name both decode;
  a record for which the decoder throws is skipped by the \<^verbatim>\<open>catch\<close>.
\<close>

theorem normalize_total:
  assumes "\<forall>msg\<in>set messages. \<forall>s. dec (senderName_or_empty msg) = Some s \<longrightarrow> \<not> inherited s"
  shows "total_messages (normalize_messages dec messages) =
           length (filter (\<lambda>msg. dec (content_or_empty msg) \<noteq> None
                              \<and> dec (senderName_or_empty msg) \<noteq> None) messages)"
proof -
  have "filter (\<lambda>msg. dec (content_or_empty msg) \<noteq> None
                  \<and> (\<exists>s. dec (senderName_or_empty msg) = Some s \<and> \<not> inherited s)) messages
        = filter (\<lambda>msg. dec (content_or_empty msg) \<noteq> None
                  \<and> dec (senderName_or_empty msg) \<noteq> None) messages"
    using assms by (intro filter_cong refl) auto
  with total_foldl [of "[]" dec messages] show ?thesis
    by (simp add: normalize_messages_def no_inherited_key_def total_messages_def)
qed

theorem normalize_total_witness:
  "\<not> inherited (js ''A'') \<and> \<not> inherited (js ''B'')
   \<and> total_messages (normalize_messages utf8_decode
       [raw_record (js ''A'') [0xE9] (Some 100),
        raw_record (js ''A'') (js ''hi'') (Some 200),
        raw_record (js ''B'') (js ''yo'') (Some 300)]) = 2"
proof -
  have i: "\<not> inherited (js ''A'')" "\<not> inherited (js ''B'')"
    by (simp_all add: inherited_def object_prototype_names_def js_def)
  have h: "\<forall>msg\<in>set [raw_record (js ''A'') [0xE9] (Some 100),
                       raw_record (js ''A'') (js ''hi'') (Some 200),
                       raw_record (js ''B'') (js ''yo'') (Some 300)].
             \<forall>s. utf8_decode (senderName_or_empty msg) = Some s \<longrightarrow> \<not> inherited s"
    using i by (auto simp: raw_record_fields utf8_decode_samples)
  from normalize_total [OF h] i show ?thesis
    by (simp add: raw_record_fields utf8_decode_lone_E9 utf8_decode_samples)
qed

text \<open>
  C1, the claim as stated fails: a record whose content is the single code unit E9 (a
  truncated UTF-8 sequence) leaves the mapping empty; the input has one message.
\<close>

theorem undecodable_message_dropped_counterexample:
  "total_messages (normalize_messages utf8_decode [raw_record (js ''A'') [0xE9] (Some 100)]) = 0
   \<and> length [raw_record (js ''A'') [0xE9] (Some 100)] = 1"
  by (simp add: normalize_messages_def forEach_message_def raw_record_fields
        utf8_decode_lone_E9 total_messages_def)

text \<open>
  C2 (as amended). The claim: a record whose content or sender name fails to decode is
  kept, with the failing field as it was before the decoding. The code skips such a
  record: the mapping is what it would be without the record, and the loop goes on with
  the records after it.
\<close>

theorem undecodable_message_skipped:
  assumes "dec (content_or_empty msg) = None \<or> dec (senderName_or_empty msg) = None"
  shows "normalize_messages dec (before @ msg # after) = normalize_messages dec (before @ after)"
proof -
  have "forEach_message dec um msg = um" for um
    using assms by (auto simp: forEach_message_def split: option.splits)
  then show ?thesis
    by (simp add: normalize_messages_def)
qed

theorem undecodable_message_skipped_witness:
  "(utf8_decode (content_or_empty (raw_record (js ''A'') [0xE9] (Some 100))) = None
      \<or> utf8_decode (senderName_or_empty (raw_record (js ''A'') [0xE9] (Some 100))) = None)
   \<and> normalize_messages utf8_decode
        ([raw_record (js ''A'') (js ''hi'') (Some 50)]
           @ raw_record (js ''A'') [0xE9] (Some 100)
           # [raw_record (js ''B'') (js ''yo'') (Some 200)])
     = normalize_messages utf8_decode
        ([raw_record (js ''A'') (js ''hi'') (Some 50)]
           @ [raw_record (js ''B'') (js ''yo'') (Some 200)])"
proof -
  have h: "utf8_decode (content_or_empty (raw_record (js ''A'') [0xE9] (Some 100))) = None
      \<or> utf8_decode (senderName_or_empty (raw_record (js ''A'') [0xE9] (Some 100))) = None"
    by (simp add: raw_record_fields utf8_decode_lone_E9)
  from h undecodable_message_skipped [OF h] show ?thesis
    by blast
qed

text \<open>
  C2, the claim as stated fails: the content E9 does not decode, and the record is not
  kept under any sender.
\<close>

theorem no_fallback_counterexample:
  "utf8_decode (content_or_empty (raw_record (js ''A'') [0xE9] (Some 100))) = None
   \<and> normalize_messages utf8_decode [raw_record (js ''A'') [0xE9] (Some 100)] = []"
  by (simp add: normalize_messages_def forEach_message_def raw_record_fields
        utf8_decode_lone_E9)

text \<open>
  C3 (as amended). The claim: content and sender name are the results of the two passes
  of Text Repair, the escapes replaced first. \<open>handleFileUpload\<close> calls the decoder
  alone: the messages stored under a sender are, in the order of the input, the decoded
  sender name and the decoded content of the records kept for that sender, with no
  replacement of escapes. On a non-empty string without an escape this is what
  \<open>decodeUnicode\<close> returns.
\<close>

theorem normalize_decodes_only:
  assumes "map_of (normalize_messages dec messages) k = Some msgs"
  shows "map (\<lambda>m. (Some (sender_name m), Some (content m))) msgs
         = map (\<lambda>msg. (dec (senderName_or_empty msg), dec (content_or_empty msg)))
             (filter (\<lambda>msg. dec (content_or_empty msg) \<noteq> None
                         \<and> dec (senderName_or_empty msg) = Some k) messages)
         \<and> (\<forall>s. s \<noteq> [] \<longrightarrow> \<not> has_escape s \<longrightarrow> decodeUnicode dec s = dec s)"
  using lookup_normalize [OF assms] canonical_decoded [of k dec messages]
    decodeUnicode_without_escape [of _ dec] by simp

theorem normalize_decodes_only_witness:
  "map_of (normalize_messages utf8_decode
      [raw_record (js ''A'') (js ''hi'') (Some 100),
       raw_record (js ''B'') (js ''yo'') (Some 200),
       raw_record (js ''A'') (js ''ok'') None]) (js ''A'')
     = Some [message (js ''A'') (js ''hi'') (Some 100), message (js ''A'') (js ''ok'') None]
   \<and> map (\<lambda>m. (Some (sender_name m), Some (content m)))
        [message (js ''A'') (js ''hi'') (Some 100), message (js ''A'') (js ''ok'') None]
     = [(utf8_decode (js ''A''), utf8_decode (js ''hi'')),
        (utf8_decode (js ''A''), utf8_decode (js ''ok''))]
   \<and> decodeUnicode utf8_decode (js ''hi'') = utf8_decode (js ''hi'')"
proof -
  have e: "js ''hi'' \<noteq> []" "\<not> has_escape (js ''hi'')"
    by (simp_all add: js_def escape_at_def)
  have ne: "js ''B'' \<noteq> js ''A''"
    by (simp add: js_def)
  from normalize_decodes_only [OF sample_upload] e sample_upload show ?thesis
    by (simp add: raw_record_fields utf8_decode_samples ne message_def)
qed

text \<open>
  C3, the claim as stated fails: \<open>decodeUnicode\<close> turns the six characters of the escape
  of the letter A (backslash, u, 0, 0, 4, 1) into that letter, and the message stored by
  the loop keeps the six characters.
\<close>

theorem escape_not_resolved_counterexample:
  "decodeUnicode utf8_decode [0x5C, 0x75, 0x30, 0x30, 0x34, 0x31] = Some (js ''A'')
   \<and> normalize_messages utf8_decode
       [raw_record (js ''A'') [0x5C, 0x75, 0x30, 0x30, 0x34, 0x31] (Some 100)]
     = [(js ''A'', [message (js ''A'') [0x5C, 0x75, 0x30, 0x30, 0x34, 0x31] (Some 100)])]"
  by code_simp

text \<open>
  C10. The messages stored under a sender carry, in the order of the input, the
  \<open>timestamp_ms\<close> and the further fields of the records kept for that sender, unchanged.
\<close>

theorem normalize_carries_fields:
  assumes "map_of (normalize_messages dec messages) k = Some msgs"
  shows "map (\<lambda>m. (timestamp_ms m, other m)) msgs
         = map (\<lambda>msg. (raw_timestamp_ms msg, raw_other msg))
             (filter (\<lambda>msg. dec (content_or_empty msg) \<noteq> None
                         \<and> dec (senderName_or_empty msg) = Some k) messages)"
  using lookup_normalize [OF assms] canonical_fields [of k dec messages] by simp

theorem normalize_carries_fields_witness:
  "map_of (normalize_messages utf8_decode
      [raw_record (js ''A'') (js ''hi'') (Some 100),
       raw_record (js ''B'') (js ''yo'') (Some 200),
       raw_record (js ''A'') (js ''ok'') None]) (js ''A'')
     = Some [message (js ''A'') (js ''hi'') (Some 100), message (js ''A'') (js ''ok'') None]
   \<and> map (\<lambda>m. (timestamp_ms m, other m))
        [message (js ''A'') (js ''hi'') (Some 100), message (js ''A'') (js ''ok'') None]
     = [(Some 100, ()), (None, ())]"
proof -
  have ne: "js ''B'' \<noteq> js ''A''"
    by (simp add: js_def)
  from normalize_carries_fields [OF sample_upload] sample_upload show ?thesis
    by (simp add: raw_record_fields utf8_decode_samples ne message_def)
qed

section \<open>Lemmas on the two rankings\<close>

lemma dropWhile_trimmed:
  "dropWhile P (rev (dropWhile P (rev (dropWhile P s)))) = rev (dropWhile P (rev (dropWhile P s)))"
proof -
  define u where "u = dropWhile P s"
  define t where "t = rev (dropWhile P (rev u))"
  have "t = [] \<or> \<not> P (hd t)"
  proof (cases "t = []")
    case True
    then show ?thesis by simp
  next
    case False
    then have ne: "dropWhile P (rev u) \<noteq> []"
      by (simp add: t_def)
    then obtain x where x: "x \<in> set (rev u)" "\<not> P x"
      by auto
    have "hd t = last (dropWhile P (rev u))"
      using ne by (simp add: t_def hd_rev)
    also have "\<dots> = last (rev u)"
      using x by (rule dropWhile_last)
    also have "\<dots> = hd u"
      using x by (simp add: last_rev)
    finally have "hd t = hd u" .
    moreover have "u \<noteq> []"
      using x by auto
    then have "\<not> P (hd u)"
      unfolding u_def by (rule hd_dropWhile)
    ultimately show ?thesis by simp
  qed
  then have "dropWhile P t = t"
    by (simp add: dropWhile_eq_self_iff)
  then show ?thesis
    by (simp add: t_def u_def)
qed

lemma trim_trim: "trim (trim s) = trim s"
  by (simp add: trim_def dropWhile_trimmed)

lemma set_own_properties: "set (own_properties obj) = set obj"
  by (auto simp: own_properties_def)

lemma keys_count_message: "fst ` set (count_message obj k) \<subseteq> insert k (fst ` set obj)"
  by (auto simp: count_message_def dom_update split: option.splits jsvalue.splits)

lemma keys_count_foldl:
  "fst ` set (foldl count_message obj ks) \<subseteq> fst ` set obj \<union> set ks"
proof (induction ks arbitrary: obj)
  case Nil
  show ?case by simp
next
  case (Cons k ks)
  from Cons.IH [of "count_message obj k"] keys_count_message [of obj k] show ?case
    by auto
qed

lemma messageCounts_alt:
  "messageCounts messages = foldl count_message [] (map content (filterMessages messages))"
  by (simp add: messageCounts_def foldl_map)

lemma sortedMessages_take:
  "sortedMessages messages =
     take 7 (array_sort (\<lambda>a b. minus_number (to_number (snd b)) (to_number (snd a)))
               (Object_entries (messageCounts messages)))"
  by (simp add: sortedMessages_def slice_from_start)

lemma labels_filtered:
  "set (labels (getTopMessages messages)) \<subseteq> content ` set (filterMessages messages)"
proof -
  have "set (sortedMessages messages) \<subseteq> set (messageCounts messages)"
    by (auto simp: sortedMessages_take Object_entries_def
          dest!: in_set_takeD simp: set_array_sort set_own_properties)
  then have "fst ` set (sortedMessages messages) \<subseteq> fst ` set (messageCounts messages)"
    by auto
  also have "\<dots> \<subseteq> content ` set (filterMessages messages)"
    using keys_count_foldl [of "[]" "map content (filterMessages messages)"]
    by (simp add: messageCounts_alt)
  finally show ?thesis
    by (simp add: getTopMessages_def)
qed

lemma first_pos_less: "x \<in> set xs \<Longrightarrow> first_pos x xs < length xs"
  by (induction xs) (auto simp: first_pos_def)

lemma first_pos_append: "x \<in> set xs \<Longrightarrow> first_pos x (xs @ ys) = first_pos x xs"
  by (simp add: first_pos_def takeWhile_append1[where P="\<lambda>y. y \<noteq> x"])

lemma first_pos_new: "x \<notin> set xs \<Longrightarrow> first_pos x (xs @ [x]) = length xs"
  by (induction xs) (auto simp: first_pos_def)

lemma inherited_proto: "inherited (js ''__proto__'')"
  by (simp add: inherited_def object_prototype_names_def)

lemma all_numbers_update: "all_numbers obj \<Longrightarrow> all_numbers (AList.update k (Number n) obj)"
  by (induction obj) (auto simp: all_numbers_def)

lemma all_numbers_lookup: "all_numbers obj \<Longrightarrow> map_of obj k = Some v \<Longrightarrow> \<exists>n. v = Number n"
  by (auto simp: all_numbers_def list_all_iff dest!: map_of_SomeD)

lemma count_message_number:
  assumes "all_numbers obj" and "\<not> inherited k"
  shows "\<exists>n. count_message obj k = AList.update k (Number n) obj"
proof (cases "map_of obj k")
  case None
  moreover have "k \<noteq> js ''__proto__''"
    using assms(2) inherited_proto by auto
  ultimately show ?thesis
    using assms(2) by (auto simp: count_message_def)
next
  case (Some v)
  with assms(1) obtain n where "v = Number n"
    by (auto dest: all_numbers_lookup)
  with Some show ?thesis
    by (auto simp: count_message_def)
qed

lemma counted_keys:
  assumes "\<forall>k\<in>set ks. \<not> inherited k"
  shows "all_numbers (foldl count_message [] ks)
         \<and> set (map fst (foldl count_message [] ks)) = set ks
         \<and> sorted_wrt (\<lambda>a b. first_pos a ks < first_pos b ks) (map fst (foldl count_message [] ks))"
  using assms
proof (induction ks rule: rev_induct)
  case Nil
  show ?case by (simp add: all_numbers_def)
next
  case (snoc k ks)
  define obj where "obj = foldl count_message [] ks"
  have IH: "all_numbers obj" "set (map fst obj) = set ks"
      "sorted_wrt (\<lambda>a b. first_pos a ks < first_pos b ks) (map fst obj)"
    using snoc by (simp_all add: obj_def)
  have "\<not> inherited k"
    using snoc.prems by simp
  with IH(1) obtain n where step: "count_message obj k = AList.update k (Number n) obj"
    using count_message_number by blast
  have old: "sorted_wrt (\<lambda>a b. first_pos a (ks @ [k]) < first_pos b (ks @ [k])) (map fst obj)"
    using IH(3)
  proof (rule sorted_wrt_mono_rel [rotated])
    fix a b
    assume "a \<in> set (map fst obj)" "b \<in> set (map fst obj)" "first_pos a ks < first_pos b ks"
    then show "first_pos a (ks @ [k]) < first_pos b (ks @ [k])"
      using IH(2) by (simp add: first_pos_append)
  qed
  have keys: "sorted_wrt (\<lambda>a b. first_pos a (ks @ [k]) < first_pos b (ks @ [k]))
                (map fst (AList.update k (Number n) obj))"
  proof (cases "k \<in> set ks")
    case True
    with old IH(2) show ?thesis
      by (simp add: update_keys)
  next
    case False
    have "first_pos a (ks @ [k]) < first_pos k (ks @ [k])" if "a \<in> set ks" for a
      using that False by (simp add: first_pos_append first_pos_new first_pos_less)
    with old IH(2) False show ?thesis
      by (simp add: update_keys sorted_wrt_append)
  qed
  have "set (map fst (AList.update k (Number n) obj)) = set (ks @ [k])"
    using IH(2) by (auto simp: update_keys)
  with keys IH(1) show ?case
    by (simp add: step all_numbers_update flip: obj_def)
qed

lemma count_message_step:
  assumes "all_numbers obj" and "\<not> inherited k"
  shows "count_message obj k =
           AList.update k
             (Number (Suc (case map_of obj k of Some v \<Rightarrow> number_of v | None \<Rightarrow> 0))) obj"
proof (cases "map_of obj k")
  case None
  moreover have "k \<noteq> js ''__proto__''"
    using assms(2) inherited_proto by auto
  ultimately show ?thesis
    using assms(2) by (simp add: count_message_def)
next
  case (Some v)
  with assms(1) obtain n where "v = Number n"
    by (auto dest: all_numbers_lookup)
  with Some show ?thesis
    by (simp add: count_message_def number_of_def)
qed

lemma counted_values:
  assumes "\<forall>k\<in>set ks. \<not> inherited k"
  shows "all_numbers (foldl count_message [] ks)
         \<and> (\<forall>x. map_of (foldl count_message [] ks) x
                  = (if x \<in> set ks then Some (Number (count_list ks x)) else None))"
  using assms
proof (induction ks rule: rev_induct)
  case Nil
  show ?case by (simp add: all_numbers_def)
next
  case (snoc k ks)
  define obj where "obj = foldl count_message [] ks"
  have IH: "all_numbers obj"
      "\<And>y. map_of obj y = (if y \<in> set ks then Some (Number (count_list ks y)) else None)"
    using snoc by (simp_all add: obj_def)
  have "\<not> inherited k"
    using snoc.prems by simp
  with IH(1) have step: "count_message obj k =
      AList.update k (Number (Suc (case map_of obj k of Some v \<Rightarrow> number_of v | None \<Rightarrow> 0))) obj"
    by (rule count_message_step)
  have "map_of (count_message obj k) x
          = (if x \<in> set (ks @ [k]) then Some (Number (count_list (ks @ [k]) x)) else None)" for x
    by (simp add: step map_of_update IH(2) number_of_def)
  with IH(1) show ?case
    by (simp add: step all_numbers_update flip: obj_def)
qed

lemma sorted_wrt_less_distinct:
  fixes f :: "'a \<Rightarrow> nat"
  shows "sorted_wrt (\<lambda>a b. f a < f b) xs \<Longrightarrow> distinct xs"
  by (induction xs) auto

lemma counted_entry:
  assumes "\<forall>k\<in>set ks. \<not> inherited k" and "(x, v) \<in> set (foldl count_message [] ks)"
  shows "v = Number (count_list ks x)"
proof -
  have "distinct (map fst (foldl count_message [] ks))"
    using counted_keys [OF assms(1)] by (auto dest: sorted_wrt_less_distinct)
  with assms(2) have "map_of (foldl count_message [] ks) x = Some v"
    by simp
  with counted_values [OF assms(1)] show ?thesis
    by (auto split: if_splits)
qed

lemma own_properties_enumerated:
  assumes "sorted_wrt (\<lambda>a b. first_pos a ks < first_pos b ks) (map fst obj)"
  shows "sorted_wrt (\<lambda>p q. enumerated_before ks (fst p) (fst q)) (own_properties obj)"
proof -
  let ?A = "filter (\<lambda>p. array_index (fst p)) obj"
  let ?B = "filter (\<lambda>p. \<not> array_index (fst p)) obj"
  have "sorted (map (\<lambda>p. decimal_value (fst p)) (sort_key (\<lambda>p. decimal_value (fst p)) ?A))"
    by (rule sorted_sort_key)
  then have "sorted_wrt (\<lambda>p q. decimal_value (fst p) \<le> decimal_value (fst q))
               (sort_key (\<lambda>p. decimal_value (fst p)) ?A)"
    by (simp add: sorted_map)
  then have A: "sorted_wrt (\<lambda>p q. enumerated_before ks (fst p) (fst q))
                  (sort_key (\<lambda>p. decimal_value (fst p)) ?A)"
    by (rule sorted_wrt_mono_rel [rotated]) (auto simp: enumerated_before_def)
  have "sorted_wrt (\<lambda>p q. first_pos (fst p) ks < first_pos (fst q) ks) obj"
    using assms by (simp add: sorted_wrt_map)
  then have "sorted_wrt (\<lambda>p q. first_pos (fst p) ks < first_pos (fst q) ks) ?B"
    by (rule sorted_wrt_filter)
  then have B: "sorted_wrt (\<lambda>p q. enumerated_before ks (fst p) (fst q)) ?B"
    by (rule sorted_wrt_mono_rel [rotated]) (auto simp: enumerated_before_def)
  have "enumerated_before ks (fst p) (fst q)"
    if "p \<in> set (sort_key (\<lambda>p. decimal_value (fst p)) ?A)" "q \<in> set ?B" for p q
    using that by (auto simp: enumerated_before_def)
  with A B show ?thesis
    by (simp add: own_properties_def sorted_wrt_append)
qed

lemma number_compare:
  assumes "all_numbers obj" and "a \<in> set obj" and "b \<in> set obj"
  shows "minus_number (to_number (snd b)) (to_number (snd a))
         = Some (- int (number_of (snd a)) - (- int (number_of (snd b))))"
proof -
  from assms have "\<exists>m. snd a = Number m" "\<exists>n. snd b = Number n"
    by (auto simp: all_numbers_def list_all_iff)
  then obtain m n where "snd a = Number m" "snd b = Number n"
    by blast
  then show ?thesis
    by (simp add: minus_number_def to_number_def number_of_def)
qed

lemma sortedMessages_sort_key:
  assumes "all_numbers (messageCounts messages)"
  shows "sortedMessages messages =
           take 7 (sort_key (\<lambda>p. - int (number_of (snd p))) (Object_entries (messageCounts messages)))"
proof -
  have "array_sort (\<lambda>a b. minus_number (to_number (snd b)) (to_number (snd a)))
          (Object_entries (messageCounts messages))
        = sort_key (\<lambda>p. - int (number_of (snd p))) (Object_entries (messageCounts messages))"
    using assms
    by (intro array_sort_key ballI number_compare [of "messageCounts messages"])
       (simp_all add: Object_entries_def set_own_properties)
  then show ?thesis
    by (simp add: sortedMessages_take)
qed

lemma sortedMessages_ordered:
  assumes "\<forall>msg\<in>set (filterMessages messages). \<not> inherited (content msg)"
  shows "sorted_wrt
           (\<lambda>p q. snd p = Number (count_list (counted_contents messages) (fst p))
                \<and> snd q = Number (count_list (counted_contents messages) (fst q))
                \<and> count_list (counted_contents messages) (fst q)
                     \<le> count_list (counted_contents messages) (fst p)
                \<and> (count_list (counted_contents messages) (fst p)
                      = count_list (counted_contents messages) (fst q)
                    \<longrightarrow> enumerated_before (counted_contents messages) (fst p) (fst q)))
           (sortedMessages messages)"
proof -
  let ?ks = "counted_contents messages"
  have ks: "\<forall>k\<in>set ?ks. \<not> inherited k"
    using assms by (simp add: counted_contents_def)
  have mc: "messageCounts messages = foldl count_message [] ?ks"
    by (simp add: messageCounts_alt counted_contents_def)
  note inv = counted_keys [OF ks, folded mc]
  have "sorted_wrt (\<lambda>p q. enumerated_before ?ks (fst p) (fst q))
          (Object_entries (messageCounts messages))"
    using inv by (simp add: Object_entries_def own_properties_enumerated)
  then have "sorted_wrt
               (\<lambda>p q. - int (number_of (snd p)) < - int (number_of (snd q))
                  \<or> (- int (number_of (snd p)) = - int (number_of (snd q))
                      \<and> enumerated_before ?ks (fst p) (fst q)))
               (sort_key (\<lambda>p. - int (number_of (snd p)))
                  (Object_entries (messageCounts messages)))"
    by (rule sort_key_lex)
  then have "sorted_wrt
               (\<lambda>p q. - int (number_of (snd p)) < - int (number_of (snd q))
                  \<or> (- int (number_of (snd p)) = - int (number_of (snd q))
                      \<and> enumerated_before ?ks (fst p) (fst q)))
               (take 7 (sort_key (\<lambda>p. - int (number_of (snd p)))
                  (Object_entries (messageCounts messages))))"
    by (rule sorted_wrt_take)
  then have "sorted_wrt
               (\<lambda>p q. - int (number_of (snd p)) < - int (number_of (snd q))
                  \<or> (- int (number_of (snd p)) = - int (number_of (snd q))
                      \<and> enumerated_before ?ks (fst p) (fst q)))
               (sortedMessages messages)"
    using inv by (simp only: sortedMessages_sort_key)
  then show ?thesis
  proof (rule sorted_wrt_mono_rel [rotated])
    fix p q
    assume p: "p \<in> set (sortedMessages messages)" and q: "q \<in> set (sortedMessages messages)"
      and lex: "- int (number_of (snd p)) < - int (number_of (snd q))
                  \<or> (- int (number_of (snd p)) = - int (number_of (snd q))
                      \<and> enumerated_before ?ks (fst p) (fst q))"
    have "set (sortedMessages messages) \<subseteq> set (foldl count_message [] ?ks)"
      using inv
      by (auto simp: sortedMessages_sort_key Object_entries_def set_own_properties mc
            dest!: in_set_takeD)
    with p q have "(fst p, snd p) \<in> set (foldl count_message [] ?ks)"
        "(fst q, snd q) \<in> set (foldl count_message [] ?ks)"
      by auto
    from this [THEN counted_entry [OF ks]]
    have "snd p = Number (count_list ?ks (fst p))" "snd q = Number (count_list ?ks (fst q))" .
    with lex show "snd p = Number (count_list ?ks (fst p))
                \<and> snd q = Number (count_list ?ks (fst q))
                \<and> count_list ?ks (fst q) \<le> count_list ?ks (fst p)
                \<and> (count_list ?ks (fst p) = count_list ?ks (fst q)
                    \<longrightarrow> enumerated_before ?ks (fst p) (fst q))"
      by (auto simp: number_of_def)
  qed
qed

lemma sortedMessages_counted:
  "set (sortedMessages messages) \<subseteq> set (foldl count_message [] (counted_contents messages))"
  by (auto simp: sortedMessages_take Object_entries_def messageCounts_alt counted_contents_def
        dest!: in_set_takeD simp: set_array_sort set_own_properties)

lemma sortedMessages_values:
  assumes "\<forall>msg\<in>set (filterMessages messages). \<not> inherited (content msg)"
    and "p \<in> set (sortedMessages messages)"
  shows "snd p = Number (count_list (counted_contents messages) (fst p))"
proof -
  have ks: "\<forall>k\<in>set (counted_contents messages). \<not> inherited k"
    using assms(1) by (simp add: counted_contents_def)
  have "(fst p, snd p) \<in> set (foldl count_message [] (counted_contents messages))"
    using assms(2) sortedMessages_counted [of messages] by auto
  then show ?thesis
    by (rule counted_entry [OF ks])
qed

lemma length_own_properties: "length (own_properties obj) = length obj"
  by (simp add: own_properties_def sum_length_filter_compl)

lemma sortedMessages_length:
  assumes "\<forall>msg\<in>set (filterMessages messages). \<not> inherited (content msg)"
  shows "length (sortedMessages messages) = min 7 (card (set (counted_contents messages)))"
proof -
  let ?ks = "counted_contents messages"
  have ks: "\<forall>k\<in>set ?ks. \<not> inherited k"
    using assms by (simp add: counted_contents_def)
  have mc: "messageCounts messages = foldl count_message [] ?ks"
    by (simp add: messageCounts_alt counted_contents_def)
  note inv = counted_keys [OF ks, folded mc]
  have "distinct (map fst (messageCounts messages))"
    using inv by (auto dest: sorted_wrt_less_distinct)
  then have "card (set (map fst (messageCounts messages))) = length (messageCounts messages)"
    using distinct_card by fastforce
  with inv have "length (messageCounts messages) = card (set ?ks)"
    by simp
  then show ?thesis
    by (simp add: sortedMessages_take length_array_sort Object_entries_def
          length_own_properties min.commute)
qed









section \<open>The ranking of message contents\<close>

text \<open>
  C6 (as amended). The claim: the entries of \<open>topMessages\<close> are in descending order of
  count, and entries with equal counts are in the order in which their contents were
  first seen. When no counted content is the name of a member of Object.prototype, the
  value of every entry is the number of occurrences of its label among the counted
  contents, the values are in descending order, and entries with equal counts are in the
  order of Object.entries: contents that are array indices first, by ascending value,
  then the other contents in the order in which they were first seen. There are as many
  entries as distinct counted contents, up to 7.
\<close>

theorem top_messages_order:
  assumes "\<forall>msg\<in>set (filterMessages messages). \<not> inherited (content msg)"
  shows "length (labels (getTopMessages messages))
           = min 7 (card (set (counted_contents messages)))
         \<and> length (data (getTopMessages messages)) = length (labels (getTopMessages messages))
         \<and> (\<forall>i < length (labels (getTopMessages messages)).
               data (getTopMessages messages) ! i
                 = Number (count_list (counted_contents messages)
                             (labels (getTopMessages messages) ! i)))
         \<and> (\<forall>i j. i < j \<and> j < length (labels (getTopMessages messages)) \<longrightarrow>
               count_list (counted_contents messages) (labels (getTopMessages messages) ! j)
                 \<le> count_list (counted_contents messages) (labels (getTopMessages messages) ! i)
               \<and> (count_list (counted_contents messages) (labels (getTopMessages messages) ! i)
                     = count_list (counted_contents messages) (labels (getTopMessages messages) ! j)
                   \<longrightarrow> enumerated_before (counted_contents messages)
                         (labels (getTopMessages messages) ! i)
                         (labels (getTopMessages messages) ! j)))"
proof (intro conjI allI impI)
  show "length (labels (getTopMessages messages)) = min 7 (card (set (counted_contents messages)))"
    using sortedMessages_length [OF assms] by (simp add: getTopMessages_def)
  show "length (data (getTopMessages messages)) = length (labels (getTopMessages messages))"
    by (simp add: getTopMessages_def)
next
  fix i
  assume "i < length (labels (getTopMessages messages))"
  then have i: "i < length (sortedMessages messages)"
    by (simp add: getTopMessages_def)
  then have "sortedMessages messages ! i \<in> set (sortedMessages messages)"
    by simp
  from sortedMessages_values [OF assms this] i
  show "data (getTopMessages messages) ! i
          = Number (count_list (counted_contents messages) (labels (getTopMessages messages) ! i))"
    by (simp add: getTopMessages_def)
next
  fix i j
  assume "i < j \<and> j < length (labels (getTopMessages messages))"
  then have ij: "i < j" and j: "j < length (sortedMessages messages)"
    by (simp_all add: getTopMessages_def)
  note ordered = sorted_wrt_nth_less [OF sortedMessages_ordered [OF assms] ij j]
  from ordered ij j
  show "count_list (counted_contents messages) (labels (getTopMessages messages) ! j)
          \<le> count_list (counted_contents messages) (labels (getTopMessages messages) ! i)"
    by (simp add: getTopMessages_def)
  assume "count_list (counted_contents messages) (labels (getTopMessages messages) ! i)
            = count_list (counted_contents messages) (labels (getTopMessages messages) ! j)"
  with ordered ij j
  show "enumerated_before (counted_contents messages)
          (labels (getTopMessages messages) ! i) (labels (getTopMessages messages) ! j)"
    by (simp add: getTopMessages_def)
qed

theorem top_messages_order_witness:
  "list_all (\<lambda>msg. \<not> inherited (content msg)) (filterMessages
      [message (js ''A'') (js ''hi'') (Some 100), message (js ''B'') (js ''5'') (Some 200),
       message (js ''A'') (js ''hi'') (Some 300), message (js ''B'') (js ''yo'') (Some 400)])
   \<and> counted_contents
      [message (js ''A'') (js ''hi'') (Some 100), message (js ''B'') (js ''5'') (Some 200),
       message (js ''A'') (js ''hi'') (Some 300), message (js ''B'') (js ''yo'') (Some 400)]
     = [js ''hi'', js ''5'', js ''hi'', js ''yo'']
   \<and> getTopMessages
      [message (js ''A'') (js ''hi'') (Some 100), message (js ''B'') (js ''5'') (Some 200),
       message (js ''A'') (js ''hi'') (Some 300), message (js ''B'') (js ''yo'') (Some 400)]
     = \<lparr>labels = [js ''hi'', js ''5'', js ''yo''], data = [Number 2, Number 1, Number 1]\<rparr>
   \<and> card (set [js ''hi'', js ''5'', js ''hi'', js ''yo'']) = 3
   \<and> count_list [js ''hi'', js ''5'', js ''hi'', js ''yo''] (js ''hi'') = 2
   \<and> count_list [js ''hi'', js ''5'', js ''hi'', js ''yo''] (js ''5'') = 1
   \<and> count_list [js ''hi'', js ''5'', js ''hi'', js ''yo''] (js ''yo'') = 1
   \<and> enumerated_before [js ''hi'', js ''5'', js ''hi'', js ''yo''] (js ''5'') (js ''yo'')
   \<and> getTopMessages
      [message (js ''A'') (js ''hi'') (Some 100), message (js ''B'') (js ''hi'') (Some 200),
       message (js ''A'') (js ''hi'') (Some 300)]
     = \<lparr>labels = [js ''hi''], data = [Number 3]\<rparr>
   \<and> count_list (counted_contents
      [message (js ''A'') (js ''hi'') (Some 100), message (js ''B'') (js ''hi'') (Some 200),
       message (js ''A'') (js ''hi'') (Some 300)]) (js ''hi'') = 3"
proof -
  let ?ms = "[message (js ''A'') (js ''hi'') (Some 100), message (js ''B'') (js ''5'') (Some 200),
       message (js ''A'') (js ''hi'') (Some 300), message (js ''B'') (js ''yo'') (Some 400)]"
  let ?one = "[message (js ''A'') (js ''hi'') (Some 100), message (js ''B'') (js ''hi'') (Some 200),
       message (js ''A'') (js ''hi'') (Some 300)]"
  have h: "list_all (\<lambda>msg. \<not> inherited (content msg)) (filterMessages ?ms)"
    by code_simp
  have h1: "list_all (\<lambda>msg. \<not> inherited (content msg)) (filterMessages ?one)"
    by code_simp
  have t: "getTopMessages ?ms
     = \<lparr>labels = [js ''hi'', js ''5'', js ''yo''], data = [Number 2, Number 1, Number 1]\<rparr>"
    by code_simp
  have t1: "getTopMessages ?one = \<lparr>labels = [js ''hi''], data = [Number 3]\<rparr>"
    by code_simp
  have k: "counted_contents ?ms = [js ''hi'', js ''5'', js ''hi'', js ''yo'']"
    by code_simp
  have H: "\<forall>msg\<in>set (filterMessages ?ms). \<not> inherited (content msg)"
    using h by (simp only: list_all_iff)
  have H1: "\<forall>msg\<in>set (filterMessages ?one). \<not> inherited (content msg)"
    using h1 by (simp only: list_all_iff)
  have len: "card (set [js ''hi'', js ''5'', js ''hi'', js ''yo'']) = 3"
    by code_simp
  have v0: "count_list [js ''hi'', js ''5'', js ''hi'', js ''yo''] (js ''hi'') = 2"
    and v1: "count_list [js ''hi'', js ''5'', js ''hi'', js ''yo''] (js ''5'') = 1"
    and v2: "count_list [js ''hi'', js ''5'', js ''hi'', js ''yo''] (js ''yo'') = 1"
    by code_simp+
  note pairs = top_messages_order [OF H, THEN conjunct2, THEN conjunct2, THEN conjunct2,
      rule_format, of 1 2]
  have e: "enumerated_before [js ''hi'', js ''5'', js ''hi'', js ''yo''] (js ''5'') (js ''yo'')"
    using pairs v1 v2 by (simp add: t k)
  note single = top_messages_order [OF H1, THEN conjunct2, THEN conjunct2, THEN conjunct1,
      rule_format, of 0]
  have s3: "count_list (counted_contents ?one) (js ''hi'') = 3"
    using single by (simp add: t1)
  from h k t len v0 v1 v2 e t1 s3 show ?thesis
    by (intro conjI)
qed

text \<open>
  C6, the claim as stated fails: of the contents "hi" and "5", each seen once and "hi"
  first, "5" is listed first; and the content "constructor" gets a value that is not a
  number, listed before a count of 2.
\<close>

theorem tie_order_counterexample:
  "counted_contents
      [message (js ''A'') (js ''hi'') (Some 100), message (js ''B'') (js ''5'') (Some 200)]
     = [js ''hi'', js ''5'']
   \<and> getTopMessages
      [message (js ''A'') (js ''hi'') (Some 100), message (js ''B'') (js ''5'') (Some 200)]
     = \<lparr>labels = [js ''5'', js ''hi''], data = [Number 1, Number 1]\<rparr>
   \<and> getTopMessages
      [message (js ''A'') (js ''constructor'') (Some 100),
       message (js ''B'') (js ''ok'') (Some 200), message (js ''A'') (js ''ok'') (Some 300)]
     = \<lparr>labels = [js ''constructor'', js ''ok''], data = [NonNumeric, Number 2]\<rparr>"
  by code_simp

text \<open>
  C7. \<open>getTopMessages\<close> returns at most 7 entries, and every label is trimmed, not empty,
  made of 7-bit ASCII code units only, and holds none of the three banned substrings
  once in lower case. (The code has no \<open>limit\<close> parameter: the limit is the constant 7.)
\<close>

theorem top_messages_policy:
  "length (labels (getTopMessages messages)) \<le> 7
   \<and> length (data (getTopMessages messages)) = length (labels (getTopMessages messages))
   \<and> (\<forall>label \<in> set (labels (getTopMessages messages)).
         trim label = label \<and> label \<noteq> [] \<and> list_all ascii label
         \<and> \<not> str_includes (toLowerCase label) (js ''liked a message'')
         \<and> \<not> str_includes (toLowerCase label) (js ''attachment'')
         \<and> \<not> str_includes (toLowerCase label) (js ''like''))"
proof (intro conjI ballI)
  show "length (labels (getTopMessages messages)) \<le> 7"
    by (simp add: getTopMessages_def sortedMessages_take)
  show "length (data (getTopMessages messages)) = length (labels (getTopMessages messages))"
    by (simp add: getTopMessages_def)
next
  fix label
  assume "label \<in> set (labels (getTopMessages messages))"
  with labels_filtered obtain msg where msg: "msg \<in> set (filterMessages messages)"
      and label: "label = content msg"
    by blast
  from msg obtain orig where "msg = orig\<lparr>content := trim (content orig)\<rparr>"
    by (auto simp: filterMessages_def)
  then have "trim (content msg) = content msg"
    by (simp add: trim_trim)
  then show "trim label = label"
    by (simp add: label)
  from msg show "label \<noteq> []" "list_all ascii label"
      "\<not> str_includes (toLowerCase label) (js ''liked a message'')"
      "\<not> str_includes (toLowerCase label) (js ''attachment'')"
      "\<not> str_includes (toLowerCase label) (js ''like'')"
    by (simp_all add: filterMessages_def label)
qed

theorem top_messages_policy_witness:
  "labels (getTopMessages
     [message (js ''A'') (js ''  hi '') (Some 100),
      message (js ''B'') (js ''I LIKE it'') (Some 200),
      message (js ''A'') [0xD83D, 0xDE00] (Some 300),
      message (js ''B'') (js ''hi'') (Some 400)]) = [js ''hi'']
   \<and> trim (js ''hi'') = js ''hi'' \<and> js ''hi'' \<noteq> [] \<and> list_all ascii (js ''hi'')
   \<and> \<not> str_includes (toLowerCase (js ''hi'')) (js ''liked a message'')
   \<and> \<not> str_includes (toLowerCase (js ''hi'')) (js ''attachment'')
   \<and> \<not> str_includes (toLowerCase (js ''hi'')) (js ''like'')"
proof -
  have l: "labels (getTopMessages
     [message (js ''A'') (js ''  hi '') (Some 100),
      message (js ''B'') (js ''I LIKE it'') (Some 200),
      message (js ''A'') [0xD83D, 0xDE00] (Some 300),
      message (js ''B'') (js ''hi'') (Some 400)]) = [js ''hi'']"
    by code_simp
  from top_messages_policy [of
     "[message (js ''A'') (js ''  hi '') (Some 100),
      message (js ''B'') (js ''I LIKE it'') (Some 200),
      message (js ''A'') [0xD83D, 0xDE00] (Some 300),
      message (js ''B'') (js ''hi'') (Some 400)]"] l
  show ?thesis
    by simp
qed

section \<open>The ranking of senders\<close>




end
